theory Spec2Isabelle
  imports Main
begin

section \<open>The built-in \<^verbatim>\<open>Map\<close>: an insertion-ordered table\<close>

text \<open>
  A JavaScript \<^verbatim>\<open>Map\<close> enumerates its entries in insertion order, \<^verbatim>\<open>set\<close> on a key
  that is already present replaces the value and keeps the entry's position, \<^verbatim>\<open>set\<close> on a new
  key appends, and \<^verbatim>\<open>delete\<close> removes the entry. It is modelled as an association list
  whose order is the enumeration order. \<^verbatim>\<open>get\<close> on a missing key gives \<^verbatim>\<open>undefined\<close>,
  modelled as \<open>None\<close>.
\<close>

type_synonym ('k, 'v) js_map = "('k \<times> 'v) list"

fun map_set :: "'k \<Rightarrow> 'v \<Rightarrow> ('k, 'v) js_map \<Rightarrow> ('k, 'v) js_map" where
  "map_set k v [] = [(k, v)]"
| "map_set k v ((k', v') # m) =
     (if k' = k then (k, v) # m else (k', v') # map_set k v m)"

fun map_delete :: "'k \<Rightarrow> ('k, 'v) js_map \<Rightarrow> ('k, 'v) js_map" where
  "map_delete k [] = []"
| "map_delete k ((k', v') # m) =
     (if k' = k then map_delete k m else (k', v') # map_delete k m)"

fun map_get :: "('k, 'v) js_map \<Rightarrow> 'k \<Rightarrow> 'v option" where
  "map_get [] k = None"
| "map_get ((k', v') # m) k = (if k' = k then Some v' else map_get m k)"

definition map_has :: "('k, 'v) js_map \<Rightarrow> 'k \<Rightarrow> bool" where
  "map_has m k = (k \<in> set (map fst m))"

definition map_keys :: "('k, 'v) js_map \<Rightarrow> 'k list" where
  "map_keys m = map fst m"

definition map_values :: "('k, 'v) js_map \<Rightarrow> 'v list" where
  "map_values m = map snd m"

definition map_size :: "('k, 'v) js_map \<Rightarrow> nat" where
  "map_size m = length m"

section \<open>Symbols\<close>

text \<open>
  \<^verbatim>\<open>Symbol(description)\<close> returns a token that is different from every symbol created
  before; the description is only carried along. A symbol is modelled as the serial number of
  its creation together with the description, and the number of symbols created so far is part
  of the state.
\<close>

datatype symbol = Symbol (serial: nat) (description: string)

definition Symbol_new :: "string \<Rightarrow> nat \<Rightarrow> symbol \<times> nat" where
  "Symbol_new d n = (Symbol n d, Suc n)"

section \<open>The class \<^verbatim>\<open>Entity\<close>\<close>

text \<open>
  The two private fields, and the number of symbols created so far. Stored entities have
  type \<open>'v\<close>; a result that may be \<^verbatim>\<open>undefined\<close> has type \<open>'v option\<close>. Each method takes
  the registry as its first argument and, when it changes it, returns the new registry.
\<close>

record 'v Entity =
  entityMap :: "(symbol, 'v) js_map"
  entitySymbols :: "(string, symbol) js_map"
  symbolCount :: nat

definition add :: "'v Entity \<Rightarrow> string \<Rightarrow> 'v \<Rightarrow> 'v Entity" where
  "add this identifier entity =
     (let (symbol, n) = Symbol_new identifier (symbolCount this) in
      this\<lparr> entityMap := map_set symbol entity (entityMap this),
            entitySymbols := map_set identifier symbol (entitySymbols this),
            symbolCount := n \<rparr>)"

definition empty_Entity :: "'v Entity" where
  "empty_Entity = \<lparr> entityMap = [], entitySymbols = [], symbolCount = 0 \<rparr>"

text \<open>
  The constructor receives an optional object; \<^verbatim>\<open>Object.entries\<close> lists its
  (identifier, entity) pairs, and each pair is added in that order.
\<close>

definition constructor :: "(string \<times> 'v) list option \<Rightarrow> 'v Entity" where
  "constructor entities =
     (case entities of
        None \<Rightarrow> empty_Entity
      | Some es \<Rightarrow> foldl (\<lambda>this (identifier, entity). add this identifier entity) empty_Entity es)"

definition get :: "'v Entity \<Rightarrow> string \<Rightarrow> 'v option" where
  "get this identifier =
     (case map_get (entitySymbols this) identifier of
        None \<Rightarrow> None
      | Some symbol \<Rightarrow> map_get (entityMap this) symbol)"

definition remove :: "'v Entity \<Rightarrow> string \<Rightarrow> bool \<times> 'v Entity" where
  "remove this identifier =
     (case map_get (entitySymbols this) identifier of
        Some symbol \<Rightarrow>
          (True, this\<lparr> entityMap := map_delete symbol (entityMap this),
                       entitySymbols := map_delete identifier (entitySymbols this) \<rparr>)
      | None \<Rightarrow> (False, this))"

definition clear :: "'v Entity \<Rightarrow> 'v Entity" where
  "clear this = this\<lparr> entityMap := [], entitySymbols := [] \<rparr>"

definition getAllIdentifiers :: "'v Entity \<Rightarrow> string list" where
  "getAllIdentifiers this = map_keys (entitySymbols this)"

definition getAllSymbols :: "'v Entity \<Rightarrow> symbol list" where
  "getAllSymbols this = map_keys (entityMap this)"

definition size_Entity :: "'v Entity \<Rightarrow> nat" where
  "size_Entity this = map_size (entityMap this)"

definition isEmpty :: "'v Entity \<Rightarrow> bool" where
  "isEmpty this = (map_size (entityMap this) = 0)"

definition has :: "'v Entity \<Rightarrow> string \<Rightarrow> bool" where
  "has this identifier = map_has (entitySymbols this) identifier"

section \<open>Combinators\<close>

text \<open>
  \<^verbatim>\<open>this.entitySymbols.forEach((symbol, identifier) => ...)\<close> walks the identifier table in
  its insertion order. The callback receives \<^verbatim>\<open>this.entityMap.get(symbol)\<close>, which the
  cast \<^verbatim>\<open>as EntityType\<close> does not check, hence an optional value, the identifier and the
  handle table.
\<close>

definition map_Entity ::
  "('v option \<Rightarrow> string \<Rightarrow> (symbol, 'v) js_map \<Rightarrow> 'r) \<Rightarrow> 'v Entity \<Rightarrow> 'r list" where
  "map_Entity callback this =
     foldl (\<lambda>result (identifier, symbol).
              result @ [callback (map_get (entityMap this) symbol) identifier (entityMap this)])
       [] (entitySymbols this)"

definition filter_Entity ::
  "('v option \<Rightarrow> string \<Rightarrow> (symbol, 'v) js_map \<Rightarrow> bool) \<Rightarrow> 'v Entity \<Rightarrow> 'v option list" where
  "filter_Entity callback this =
     foldl (\<lambda>result (identifier, symbol).
              if callback (map_get (entityMap this) symbol) identifier (entityMap this)
              then result @ [map_get (entityMap this) symbol] else result)
       [] (entitySymbols this)"

text \<open>
  \<^verbatim>\<open>find\<close> is the same walk with a variable \<^verbatim>\<open>result\<close> that every matching entry
  overwrites. Its callback may have effects of its own; they are modelled by a state \<open>'s\<close> of
  the caller that each invocation of the callback reads and updates, so that the invocations
  themselves can be observed.
\<close>

fun find_walk ::
  "('v option \<Rightarrow> string \<Rightarrow> (symbol, 'v) js_map \<Rightarrow> 's \<Rightarrow> bool \<times> 's) \<Rightarrow> (symbol, 'v) js_map \<Rightarrow>
   (string \<times> symbol) list \<Rightarrow> 'v option \<times> 's \<Rightarrow> 'v option \<times> 's" where
  "find_walk callback em [] (result, s) = (result, s)"
| "find_walk callback em ((identifier, symbol) # rest) (result, s) =
     (let (b, s') = callback (map_get em symbol) identifier em s in
      find_walk callback em rest (if b then map_get em symbol else result, s'))"

definition find_Entity ::
  "('v option \<Rightarrow> string \<Rightarrow> (symbol, 'v) js_map \<Rightarrow> 's \<Rightarrow> bool \<times> 's) \<Rightarrow> 'v Entity \<Rightarrow> 's \<Rightarrow>
   'v option \<times> 's" where
  "find_Entity callback this s = find_walk callback (entityMap this) (entitySymbols this) (None, s)"

text \<open>A callback without effects leaves the caller's state alone.\<close>

definition pure_callback ::
  "('v option \<Rightarrow> string \<Rightarrow> (symbol, 'v) js_map \<Rightarrow> bool) \<Rightarrow>
   'v option \<Rightarrow> string \<Rightarrow> (symbol, 'v) js_map \<Rightarrow> 's \<Rightarrow> bool \<times> 's" where
  "pure_callback fn v identifier em s = (fn v identifier em, s)"

text \<open>A callback that also records the identifier of every entry it is invoked on.\<close>

definition logging_callback ::
  "('v option \<Rightarrow> string \<Rightarrow> (symbol, 'v) js_map \<Rightarrow> bool) \<Rightarrow>
   'v option \<Rightarrow> string \<Rightarrow> (symbol, 'v) js_map \<Rightarrow> string list \<Rightarrow> bool \<times> string list" where
  "logging_callback fn v identifier em log = (fn v identifier em, log @ [identifier])"

text \<open>
  The arguments that the walk hands to the callback, entry by entry: the identifier table in
  its own order, each identifier with the value that the handle table holds for its handle.
\<close>

definition walk_entries :: "'v Entity \<Rightarrow> ('v option \<times> string) list" where
  "walk_entries this =
     map (\<lambda>(identifier, symbol). (map_get (entityMap this) symbol, identifier)) (entitySymbols this)"

definition last_walk_match ::
  "('v option \<Rightarrow> string \<Rightarrow> (symbol, 'v) js_map \<Rightarrow> bool) \<Rightarrow> 'v Entity \<Rightarrow> 'v option" where
  "last_walk_match fn this =
     (case filter (\<lambda>(v, identifier). fn v identifier (entityMap this)) (walk_entries this) of
        [] \<Rightarrow> None
      | m # ms \<Rightarrow> fst (last (m # ms)))"

text \<open>
  \<^verbatim>\<open>forEach\<close> hands the callback the identifier, the value and \<^verbatim>\<open>this.entityMap\<close> itself,
  not a copy: whatever the callback does to that \<^verbatim>\<open>Map\<close> is done to the registry's handle
  table. The callback is modelled by its effect on the table, the table it leaves behind
  (the same table for a callback that only reads); each step of the walk looks the value up
  in the table as the callbacks before have left it.
\<close>

fun forEach_walk ::
  "(string \<Rightarrow> 'v option \<Rightarrow> (symbol, 'v) js_map \<Rightarrow> (symbol, 'v) js_map) \<Rightarrow>
   (string \<times> symbol) list \<Rightarrow> (symbol, 'v) js_map \<Rightarrow> (symbol, 'v) js_map" where
  "forEach_walk callback [] em = em"
| "forEach_walk callback ((identifier, symbol) # rest) em =
     forEach_walk callback rest (callback identifier (map_get em symbol) em)"

definition forEach ::
  "'v Entity \<Rightarrow> (string \<Rightarrow> 'v option \<Rightarrow> (symbol, 'v) js_map \<Rightarrow> (symbol, 'v) js_map) \<Rightarrow>
   'v Entity" where
  "forEach this callback =
     this\<lparr> entityMap := forEach_walk callback (entitySymbols this) (entityMap this) \<rparr>"

section \<open>Default iteration\<close>

text \<open>
  \<^verbatim>\<open>values()\<close> of a \<^verbatim>\<open>Map\<close> is an iterator over its values in insertion order; its
  state is the list of values not yet produced, and \<^verbatim>\<open>next()\<close> on an exhausted iterator
  gives \<^verbatim>\<open>{done: true, value: undefined}\<close>. The registry is not modified while it is
  iterated.
\<close>

fun values_next :: "'a list \<Rightarrow> (bool \<times> 'a option) \<times> 'a list" where
  "values_next [] = ((True, None), [])"
| "values_next (x # xs) = ((False, Some x), xs)"

type_synonym 'v item = "'v option \<times> symbol option \<times> symbol option \<times> (symbol, 'v) js_map"

record 'v iterator_state =
  iter_symbols :: "symbol list"
  iter_entities :: "'v list"
  iter_view :: "(symbol, 'v) js_map"

definition iterator :: "'v Entity \<Rightarrow> 'v iterator_state" where
  "iterator this =
     \<lparr> iter_symbols = map_values (entitySymbols this),
       iter_entities = map_values (entityMap this),
       iter_view = entityMap this \<rparr>"

definition iterator_next :: "'v iterator_state \<Rightarrow> (bool \<times> 'v item) \<times> 'v iterator_state" where
  "iterator_next it =
     (let (symbol, symbols') = values_next (iter_symbols it);
          (entity, entities') = values_next (iter_entities it)
      in ((fst symbol \<or> fst entity, (snd entity, snd symbol, snd symbol, iter_view it)),
          it\<lparr> iter_symbols := symbols', iter_entities := entities' \<rparr>))"

text \<open>
  A \<^verbatim>\<open>for ... of\<close> loop (or a spread) calls \<^verbatim>\<open>next\<close> until \<^verbatim>\<open>done\<close> is true and
  yields the values before that.
\<close>

function iterate :: "'v iterator_state \<Rightarrow> 'v item list" where
  "iterate it =
     (case iterator_next it of
        ((True, _), _) \<Rightarrow> []
      | ((False, item), it') \<Rightarrow> item # iterate it')"
  by pat_completeness auto
termination
proof (relation "measure (\<lambda>it. length (iter_symbols it))", goal_cases)
  case 1
  show ?case by simp
next
  case (2 it p it' b item)
  then show ?case
    by (cases "iter_symbols it"; cases "iter_entities it") (auto simp: iterator_next_def)
qed

text \<open>The defining equation of \<open>iterate\<close> is unfolded by hand, one call at a time.\<close>

declare iterate.simps [simp del]

section \<open>Sequences of calls\<close>

text \<open>
  The operations that change a registry are \<^verbatim>\<open>add\<close>, \<^verbatim>\<open>remove\<close> and \<^verbatim>\<open>clear\<close>; every
  other public operation only reads it. A reachable state is what a sequence of these calls
  leaves, starting from a freshly constructed registry.
\<close>

datatype 'v call = Add string 'v | Remove string | Clear

fun exec :: "'v Entity \<Rightarrow> 'v call \<Rightarrow> 'v Entity" where
  "exec this (Add identifier entity) = add this identifier entity"
| "exec this (Remove identifier) = snd (remove this identifier)"
| "exec this Clear = clear this"

definition run :: "(string \<times> 'v) list option \<Rightarrow> 'v call list \<Rightarrow> 'v Entity" where
  "run entities calls = foldl exec (constructor entities) calls"

text \<open>
  A caller can also reach the handle table through the reference that a combinator hands to
  its callback. \<open>operation\<close> adds \<^verbatim>\<open>forEach\<close> with such a callback to the calls above.
\<close>

datatype 'v operation =
  Mutate "'v call"
| ForEach "string \<Rightarrow> 'v option \<Rightarrow> (symbol, 'v) js_map \<Rightarrow> (symbol, 'v) js_map"

fun perform :: "'v Entity \<Rightarrow> 'v operation \<Rightarrow> 'v Entity" where
  "perform this (Mutate c) = exec this c"
| "perform this (ForEach callback) = forEach this callback"

definition run_operations :: "(string \<times> 'v) list option \<Rightarrow> 'v operation list \<Rightarrow> 'v Entity" where
  "run_operations entities operations = foldl perform (constructor entities) operations"

section \<open>Consistency of the two tables\<close>

text \<open>
  The properties that every reachable registry has: no key occurs twice in either table, no
  symbol is stored for two identifiers, every symbol of the identifier table is a key of the
  handle table, and every stored symbol was created before (its serial number is below the
  count).
\<close>

definition consistent :: "'v Entity \<Rightarrow> bool" where
  "consistent this \<longleftrightarrow>
     distinct (map fst (entityMap this)) \<and>
     distinct (map fst (entitySymbols this)) \<and>
     distinct (map snd (entitySymbols this)) \<and>
     snd ` set (entitySymbols this) \<subseteq> fst ` set (entityMap this) \<and>
     (\<forall>symbol \<in> fst ` set (entityMap this). serial symbol < symbolCount this)"

section \<open>Vocabulary of the specification\<close>

text \<open>\<open>adds identifier calls\<close>: some call in the sequence is \<^verbatim>\<open>add\<close> with this identifier.\<close>

definition adds :: "string \<Rightarrow> 'v call list \<Rightarrow> bool" where
  "adds identifier calls =
     list_ex (\<lambda>c. case c of Add i _ \<Rightarrow> i = identifier | _ \<Rightarrow> False) calls"

text \<open>The identifiers the constructor adds.\<close>

definition constructed_identifiers :: "(string \<times> 'v) list option \<Rightarrow> string list" where
  "constructed_identifiers entities = (case entities of None \<Rightarrow> [] | Some es \<Rightarrow> map fst es)"

text \<open>
  The specification's canonical enumeration order is the insertion order of the handle
  table. \<open>enumeration\<close> lists the entries in that order: each handle's value with the
  identifier whose handle it is; a handle that no identifier has is no entry.
\<close>

definition enumeration :: "'v Entity \<Rightarrow> ('v option \<times> string) list" where
  "enumeration this =
     concat (map (\<lambda>(symbol, entity).
                    map (\<lambda>(identifier, s). (Some entity, identifier))
                      (filter (\<lambda>(identifier, s). s = symbol) (entitySymbols this)))
               (entityMap this))"

text \<open>
  The specification's wording of \<^verbatim>\<open>find\<close>: the last value in enumeration order for which
  the predicate is true, or absent when there is none.
\<close>

definition last_match ::
  "('v option \<Rightarrow> string \<Rightarrow> (symbol, 'v) js_map \<Rightarrow> bool) \<Rightarrow> 'v Entity \<Rightarrow> 'v option" where
  "last_match fn this =
     (case filter (\<lambda>(v, identifier). fn v identifier (entityMap this)) (enumeration this) of
        [] \<Rightarrow> None
      | m # ms \<Rightarrow> fst (last (m # ms)))"

text \<open>The predicate \<^verbatim>\<open>v => v > 0\<close> on numbers; \<^verbatim>\<open>undefined > 0\<close> is false.\<close>

definition positive :: "int option \<Rightarrow> string \<Rightarrow> (symbol, int) js_map \<Rightarrow> bool" where
  "positive v identifier em = (case v of Some x \<Rightarrow> 0 < x | None \<Rightarrow> False)"

text \<open>
  The handle table lists exactly the handles of the identifier table, in the same order.
\<close>

definition aligned :: "'v Entity \<Rightarrow> bool" where
  "aligned this \<longleftrightarrow> map_values (entitySymbols this) = map_keys (entityMap this)"

text \<open>
  \<open>fresh_adds this calls\<close>: no \<^verbatim>\<open>add\<close> of the sequence, run from \<open>this\<close>, names an
  identifier that is present when it is called.
\<close>

fun fresh_adds :: "'v Entity \<Rightarrow> 'v call list \<Rightarrow> bool" where
  "fresh_adds this [] = True"
| "fresh_adds this (c # calls) =
     ((case c of Add identifier _ \<Rightarrow> \<not> has this identifier | _ \<Rightarrow> True) \<and>
      fresh_adds (exec this c) calls)"

text \<open>
  Two callbacks for \<^verbatim>\<open>forEach\<close>: \<^verbatim>\<open>(id, e, m) => { m.clear() }\<close>, which empties the table
  it is handed, and \<^verbatim>\<open>(id, e, m) => {}\<close>, which leaves it alone. \<open>well_behaved\<close> holds of
  every call of the registry's own and of a \<^verbatim>\<open>forEach\<close> whose callback never changes the
  table.
\<close>

definition clear_table :: "string \<Rightarrow> 'v option \<Rightarrow> (symbol, 'v) js_map \<Rightarrow> (symbol, 'v) js_map" where
  "clear_table identifier entity em = []"

definition look_only :: "string \<Rightarrow> 'v option \<Rightarrow> (symbol, 'v) js_map \<Rightarrow> (symbol, 'v) js_map" where
  "look_only identifier entity em = em"

fun well_behaved :: "'v operation \<Rightarrow> bool" where
  "well_behaved (Mutate c) = True"
| "well_behaved (ForEach callback) = (\<forall>identifier entity em. callback identifier entity em = em)"

section \<open>Facts about the table operations\<close>

lemma map_get_set: "map_get (map_set k v m) k' = (if k' = k then Some v else map_get m k')"
  by (induction k v m rule: map_set.induct) auto

lemma map_get_delete: "map_get (map_delete k m) k' = (if k' = k then None else map_get m k')"
  by (induction k m rule: map_delete.induct) auto

lemma map_get_None: "map_get m k = None \<longleftrightarrow> k \<notin> fst ` set m"
  by (induction m k rule: map_get.induct) auto

lemma map_get_SomeD: "map_get m k = Some v \<Longrightarrow> (k, v) \<in> set m"
  by (induction m k rule: map_get.induct) (auto split: if_splits)

lemma keys_map_set_present: "k \<in> fst ` set m \<Longrightarrow> map fst (map_set k v m) = map fst m"
  by (induction k v m rule: map_set.induct) auto

lemma keys_map_set_absent: "k \<notin> fst ` set m \<Longrightarrow> map fst (map_set k v m) = map fst m @ [k]"
  by (induction k v m rule: map_set.induct) auto

lemma keys_map_set:
  "map fst (map_set k v m) = (if k \<in> fst ` set m then map fst m else map fst m @ [k])"
  by (simp add: keys_map_set_present keys_map_set_absent)

lemma length_map_set:
  "length (map_set k v m) = (if k \<in> fst ` set m then length m else Suc (length m))"
proof -
  have "length (map_set k v m) = length (map fst (map_set k v m))" by simp
  also have "\<dots> = (if k \<in> fst ` set m then length m else Suc (length m))"
    unfolding keys_map_set by simp
  finally show ?thesis .
qed

lemma keys_map_delete: "map fst (map_delete k m) = removeAll k (map fst m)"
  by (induction k m rule: map_delete.induct) auto

lemma map_delete_filter: "map_delete k m = filter (\<lambda>p. fst p \<noteq> k) m"
  by (induction k m rule: map_delete.induct) simp_all

lemma set_map_delete: "set (map_delete k m) = {p \<in> set m. fst p \<noteq> k}"
  by (simp add: map_delete_filter)

lemma values_map_set_subset: "snd ` set (map_set k v m) \<subseteq> insert v (snd ` set m)"
  by (induction k v m rule: map_set.induct) auto

lemma values_map_set_mem: "v \<in> snd ` set (map_set k v m)"
  by (induction k v m rule: map_set.induct) auto

lemma distinct_values_map_set:
  "distinct (map snd m) \<Longrightarrow> v \<notin> snd ` set m \<Longrightarrow> distinct (map snd (map_set k v m))"
proof (induction k v m rule: map_set.induct)
  case (1 k v)
  then show ?case by simp
next
  case (2 k v k' v' m)
  from "2.prems" have a: "v' \<notin> snd ` set m" "v' \<noteq> v" "distinct (map snd m)" "v \<notin> snd ` set m"
    by auto
  have "v' \<notin> snd ` set (map_set k v m)"
    using a values_map_set_subset [of k v m] by blast
  with "2.IH" a show ?case by simp
qed

lemma distinct_values_map_delete:
  "distinct (map snd m) \<Longrightarrow> distinct (map snd (map_delete k m))"
  by (induction k m rule: map_delete.induct) (auto simp: set_map_delete)

lemma distinct_values_unique:
  "distinct (map snd m) \<Longrightarrow> (a, s) \<in> set m \<Longrightarrow> (b, s) \<in> set m \<Longrightarrow> a = b"
  by (induction m) force+

lemma consistent_empty: "consistent empty_Entity"
  by (simp add: consistent_def empty_Entity_def)

lemma fresh_symbol:
  assumes "consistent this"
  shows "Symbol (symbolCount this) d \<notin> fst ` set (entityMap this)"
    and "Symbol (symbolCount this) d \<notin> snd ` set (entitySymbols this)"
proof -
  show a: "Symbol (symbolCount this) d \<notin> fst ` set (entityMap this)"
    using assms unfolding consistent_def by fastforce
  show "Symbol (symbolCount this) d \<notin> snd ` set (entitySymbols this)"
    using a assms unfolding consistent_def by blast
qed

lemma distinct_keys_map_set: "distinct (map fst m) \<Longrightarrow> distinct (map fst (map_set k v m))"
  by (simp add: keys_map_set)

lemma distinct_keys_map_delete: "distinct (map fst m) \<Longrightarrow> distinct (map fst (map_delete k m))"
  by (simp add: keys_map_delete distinct_removeAll)

lemma keys_set_map_set: "fst ` set (map_set k v m) = insert k (fst ` set m)"
proof -
  have "set (map fst (map_set k v m)) = insert k (set (map fst m))"
    unfolding keys_map_set by auto
  then show ?thesis by simp
qed

lemma consistent_add:
  assumes "consistent this"
  shows "consistent (add this identifier entity)"
proof -
  let ?s = "Symbol (symbolCount this) identifier"
  have em: "entityMap (add this identifier entity) = map_set ?s entity (entityMap this)"
    and es: "entitySymbols (add this identifier entity) = map_set identifier ?s (entitySymbols this)"
    and sc: "symbolCount (add this identifier entity) = Suc (symbolCount this)"
    by (simp_all add: add_def Symbol_new_def)
  from assms have d1: "distinct (map fst (entityMap this))"
    and d2: "distinct (map fst (entitySymbols this))"
    and d3: "distinct (map snd (entitySymbols this))"
    and sub: "snd ` set (entitySymbols this) \<subseteq> fst ` set (entityMap this)"
    and bound: "\<forall>symbol \<in> fst ` set (entityMap this). serial symbol < symbolCount this"
    unfolding consistent_def by blast+
  have c1: "distinct (map fst (entityMap (add this identifier entity)))"
    unfolding em using d1 by (rule distinct_keys_map_set)
  have c2: "distinct (map fst (entitySymbols (add this identifier entity)))"
    unfolding es using d2 by (rule distinct_keys_map_set)
  have c3: "distinct (map snd (entitySymbols (add this identifier entity)))"
    unfolding es using d3 fresh_symbol(2) [OF assms] by (rule distinct_values_map_set)
  have c4: "snd ` set (entitySymbols (add this identifier entity))
              \<subseteq> fst ` set (entityMap (add this identifier entity))"
    unfolding em es keys_set_map_set
    using values_map_set_subset [of "identifier" "Symbol (symbolCount this) identifier" "entitySymbols this"] sub
    by blast
  have c5: "\<forall>symbol \<in> fst ` set (entityMap (add this identifier entity)).
              serial symbol < symbolCount (add this identifier entity)"
    unfolding em sc keys_set_map_set using bound by (simp add: less_Suc_eq)
  from c1 c2 c3 c4 c5 show ?thesis unfolding consistent_def by blast
qed

lemma remove_None:
  "map_get (entitySymbols this) identifier = None \<Longrightarrow> remove this identifier = (False, this)"
  by (simp add: remove_def)

lemma remove_Some:
  "map_get (entitySymbols this) identifier = Some symbol \<Longrightarrow>
   remove this identifier =
     (True, this\<lparr> entityMap := map_delete symbol (entityMap this),
                  entitySymbols := map_delete identifier (entitySymbols this) \<rparr>)"
  by (simp add: remove_def)

lemma keys_set_map_delete: "fst ` set (map_delete k m) = fst ` set m - {k}"
  by (auto simp: set_map_delete)

lemma values_after_delete:
  assumes "distinct (map snd m)" and "map_get m k = Some s"
  shows "snd ` set (map_delete k m) \<subseteq> snd ` set m - {s}"
proof
  fix x assume "x \<in> snd ` set (map_delete k m)"
  then obtain k' where k': "(k', x) \<in> set m" "k' \<noteq> k"
    by (auto simp: set_map_delete)
  have "(k, s) \<in> set m" using assms(2) by (rule map_get_SomeD)
  with k' assms(1) have "x \<noteq> s" using distinct_values_unique by fastforce
  with k' show "x \<in> snd ` set m - {s}" by force
qed

lemma consistent_remove:
  assumes "consistent this"
  shows "consistent (snd (remove this identifier))"
proof (cases "map_get (entitySymbols this) identifier")
  case None
  then show ?thesis using assms by (simp add: remove_None)
next
  case (Some symbol)
  let ?r = "snd (remove this identifier)"
  have em: "entityMap ?r = map_delete symbol (entityMap this)"
    and es: "entitySymbols ?r = map_delete identifier (entitySymbols this)"
    and sc: "symbolCount ?r = symbolCount this"
    by (simp_all add: remove_Some [OF Some])
  from assms have d1: "distinct (map fst (entityMap this))"
    and d2: "distinct (map fst (entitySymbols this))"
    and d3: "distinct (map snd (entitySymbols this))"
    and sub: "snd ` set (entitySymbols this) \<subseteq> fst ` set (entityMap this)"
    and bound: "\<forall>symbol \<in> fst ` set (entityMap this). serial symbol < symbolCount this"
    unfolding consistent_def by blast+
  have c1: "distinct (map fst (entityMap ?r))"
    unfolding em using d1 by (rule distinct_keys_map_delete)
  have c2: "distinct (map fst (entitySymbols ?r))"
    unfolding es using d2 by (rule distinct_keys_map_delete)
  have c3: "distinct (map snd (entitySymbols ?r))"
    unfolding es using d3 by (rule distinct_values_map_delete)
  have c4: "snd ` set (entitySymbols ?r) \<subseteq> fst ` set (entityMap ?r)"
    unfolding em es keys_set_map_delete using values_after_delete [OF d3 Some] sub by blast
  have c5: "\<forall>symbol \<in> fst ` set (entityMap ?r). serial symbol < symbolCount ?r"
    unfolding em sc keys_set_map_delete using bound by blast
  from c1 c2 c3 c4 c5 show ?thesis unfolding consistent_def by blast
qed

lemma consistent_clear: "consistent (clear this)"
  by (simp add: consistent_def clear_def)

lemma consistent_exec: "consistent this \<Longrightarrow> consistent (exec this c)"
  by (cases c) (simp_all add: consistent_add consistent_remove consistent_clear)

lemma consistent_foldl_exec: "consistent this \<Longrightarrow> consistent (foldl exec this calls)"
  by (induction calls arbitrary: this) (simp_all add: consistent_exec)

lemma consistent_foldl_add:
  "consistent this \<Longrightarrow>
   consistent (foldl (\<lambda>this (identifier, entity). add this identifier entity) this es)"
  by (induction es arbitrary: this) (simp_all add: consistent_add split: prod.splits)

lemma consistent_constructor: "consistent (constructor entities)"
  by (cases entities) (simp_all add: constructor_def consistent_empty consistent_foldl_add)

lemma consistent_run: "consistent (run entities calls)"
  unfolding run_def by (rule consistent_foldl_exec [OF consistent_constructor])

lemma has_iff: "has this identifier \<longleftrightarrow> map_get (entitySymbols this) identifier \<noteq> None"
  by (simp add: has_def map_has_def map_get_None)

lemma has_add: "has (add this i v) j \<longleftrightarrow> j = i \<or> has this j"
  by (simp add: has_iff add_def Symbol_new_def map_get_set)

lemma has_remove: "has (snd (remove this i)) j \<longleftrightarrow> j \<noteq> i \<and> has this j"
  by (cases "map_get (entitySymbols this) i")
     (auto simp: has_iff remove_None remove_Some map_get_delete)

lemma has_clear: "\<not> has (clear this) j"
  by (simp add: has_iff clear_def)

lemma not_has_get: "\<not> has this identifier \<Longrightarrow> get this identifier = None"
  by (simp add: has_iff get_def)

lemma adds_Cons:
  "adds i (c # calls) \<longleftrightarrow> (\<exists>v. c = Add i v) \<or> adds i calls"
  by (cases c) (auto simp: adds_def)

lemma not_has_foldl_exec:
  "\<not> has this i \<Longrightarrow> \<not> adds i calls \<Longrightarrow> \<not> has (foldl exec this calls) i"
proof (induction calls arbitrary: this)
  case Nil
  then show ?case by simp
next
  case (Cons c calls)
  from Cons.prems have "\<not> has (exec this c) i"
    by (cases c) (auto simp: has_add has_remove has_clear adds_Cons)
  moreover from Cons.prems have "\<not> adds i calls" by (simp add: adds_Cons)
  ultimately show ?case using Cons.IH by simp
qed

lemma has_empty: "\<not> has empty_Entity i"
  by (simp add: has_iff empty_Entity_def)

lemma has_foldl_add:
  "has (foldl (\<lambda>this (identifier, entity). add this identifier entity) this es) i
     \<longleftrightarrow> i \<in> fst ` set es \<or> has this i"
  by (induction es arbitrary: this) (auto simp: has_add split: prod.splits)

lemma has_constructor:
  "has (constructor entities) i \<longleftrightarrow> i \<in> set (constructed_identifiers entities)"
  by (cases entities)
     (simp_all add: constructor_def constructed_identifiers_def has_empty has_foldl_add)

lemma get_add_same: "get (add this identifier entity) identifier = Some entity"
  by (simp add: get_def add_def Symbol_new_def map_get_set)

lemma run_append: "run entities (pre @ post) = foldl exec (run entities pre) post"
  by (simp add: run_def)

section \<open>Lookup after insertion and removal\<close>

text \<open>
  Claim C3. For every registry, identifier and value, \<^verbatim>\<open>add(id, v)\<close> followed by
  \<^verbatim>\<open>get(id)\<close> returns \<open>v\<close>. In a registry reached by a sequence of calls, \<^verbatim>\<open>get\<close> of an
  identifier that neither the constructor nor any call added returns absent, and so does
  \<^verbatim>\<open>get\<close> of an identifier that was removed and not added again since; \<^verbatim>\<open>get\<close> is a total
  function, it has no failing branch.
\<close>

theorem add_then_get_roundtrip:
  "get (add this identifier entity) identifier = Some entity \<and>
   (identifier \<notin> set (constructed_identifiers entities) \<and> \<not> adds identifier calls
      \<longrightarrow> get (run entities calls) identifier = None) \<and>
   (\<not> adds identifier post
      \<longrightarrow> get (run entities (pre @ Remove identifier # post)) identifier = None)"
proof (intro conjI impI)
  show "get (add this identifier entity) identifier = Some entity"
    by (rule get_add_same)
next
  assume a: "identifier \<notin> set (constructed_identifiers entities) \<and> \<not> adds identifier calls"
  then have "\<not> has (constructor entities) identifier" by (simp add: has_constructor)
  with a have "\<not> has (run entities calls) identifier"
    unfolding run_def by (simp add: not_has_foldl_exec)
  then show "get (run entities calls) identifier = None" by (rule not_has_get)
next
  assume a: "\<not> adds identifier post"
  have "\<not> has (snd (remove (run entities pre) identifier)) identifier"
    by (simp add: has_remove)
  with a have "\<not> has (foldl exec (snd (remove (run entities pre) identifier)) post) identifier"
    by (rule not_has_foldl_exec [rotated])
  then have "\<not> has (run entities (pre @ Remove identifier # post)) identifier"
    by (simp add: run_append)
  then show "get (run entities (pre @ Remove identifier # post)) identifier = None"
    by (rule not_has_get)
qed

theorem add_then_get_roundtrip_witness:
  "get (add (empty_Entity :: nat Entity) ''x'' 1) ''x'' = Some 1 \<and>
   get (run (Some [(''a'', 10::nat)]) [Add ''b'' 2]) ''x'' = None \<and>
   get (run (Some [(''a'', 10::nat)]) ([Add ''x'' 2] @ Remove ''x'' # [Add ''b'' 3])) ''x'' = None"
  using add_then_get_roundtrip [of "empty_Entity :: nat Entity" "''x''" 1 "Some [(''a'', 10::nat)]" "[Add ''b'' 2]"
              "[Add ''b'' 3]" "[Add ''x'' 2]"]
  by (simp add: adds_def constructed_identifiers_def)

section \<open>Removal\<close>

lemma get_remove_other:
  assumes "consistent this" and "other \<noteq> identifier"
  shows "get (snd (remove this identifier)) other = get this other"
proof (cases "map_get (entitySymbols this) identifier")
  case None
  then show ?thesis by (simp add: remove_None)
next
  case (Some symbol)
  from assms(1) have d3: "distinct (map snd (entitySymbols this))"
    unfolding consistent_def by blast
  show ?thesis
  proof (cases "map_get (entitySymbols this) other")
    case None
    then show ?thesis using assms(2) by (simp add: remove_Some [OF Some] get_def map_get_delete)
  next
    case other: (Some symbol')
    have "(identifier, symbol) \<in> set (entitySymbols this)"
      using Some by (rule map_get_SomeD)
    moreover have "(other, symbol') \<in> set (entitySymbols this)"
      using other by (rule map_get_SomeD)
    ultimately have "symbol' \<noteq> symbol"
      using d3 assms(2) distinct_values_unique by fastforce
    then show ?thesis
      using assms(2) other by (simp add: remove_Some [OF Some] get_def map_get_delete)
  qed
qed

lemma handle_remove_other:
  "other \<noteq> identifier \<Longrightarrow>
   map_get (entitySymbols (snd (remove this identifier))) other = map_get (entitySymbols this) other"
  by (cases "map_get (entitySymbols this) identifier")
     (simp_all add: remove_None remove_Some map_get_delete)

lemma remove_evicts:
  assumes "consistent this" and "map_get (entitySymbols this) identifier = Some symbol"
  shows "\<not> map_has (entityMap (snd (remove this identifier))) symbol"
    and "symbol \<notin> set (map_values (entitySymbols (snd (remove this identifier))))"
proof -
  show "\<not> map_has (entityMap (snd (remove this identifier))) symbol"
    by (simp add: remove_Some [OF assms(2)] map_has_def keys_set_map_delete)
  from assms(1) have d3: "distinct (map snd (entitySymbols this))"
    unfolding consistent_def by blast
  show "symbol \<notin> set (map_values (entitySymbols (snd (remove this identifier))))"
    using values_after_delete [OF d3 assms(2)]
    by (auto simp: remove_Some [OF assms(2)] map_values_def)
qed

text \<open>
  Claim C4. In a registry reached by a sequence of calls, \<^verbatim>\<open>remove(id)\<close> on a present
  identifier returns true; the identifier's handle is then gone from both tables (it is no
  key of the handle table and no value of the identifier table), \<^verbatim>\<open>has(id)\<close> is false and
  \<^verbatim>\<open>get(id)\<close> is absent, while every other identifier keeps its handle and its value. On an absent identifier \<^verbatim>\<open>remove\<close> returns false and the registry is unchanged.
\<close>

theorem remove_correct:
  assumes "this = run entities calls" and "remove this identifier = (removed, this')"
  shows "(has this identifier \<longrightarrow>
            removed \<and>
            (\<forall>symbol. map_get (entitySymbols this) identifier = Some symbol \<longrightarrow>
               \<not> map_has (entityMap this') symbol \<and>
               symbol \<notin> set (map_values (entitySymbols this'))) \<and>
            \<not> has this' identifier \<and> get this' identifier = None \<and>
            (\<forall>other. other \<noteq> identifier \<longrightarrow>
               map_get (entitySymbols this') other = map_get (entitySymbols this) other \<and>
               get this' other = get this other)) \<and>
         (\<not> has this identifier \<longrightarrow> \<not> removed \<and> this' = this)"
proof -
  have c: "consistent this" unfolding assms(1) by (rule consistent_run)
  have r: "removed = fst (remove this identifier)" "this' = snd (remove this identifier)"
    using assms(2) by simp_all
  have absent: "\<not> has this identifier \<longrightarrow> \<not> removed \<and> this' = this"
    unfolding r by (simp add: has_iff remove_None)
  have ret: "has this identifier \<longrightarrow> removed"
    unfolding r by (auto simp: has_iff remove_Some)
  have gone: "\<not> has this' identifier" unfolding r by (simp add: has_remove)
  then have no_value: "get this' identifier = None" by (rule not_has_get)
  have evict: "\<forall>symbol. map_get (entitySymbols this) identifier = Some symbol \<longrightarrow>
               \<not> map_has (entityMap this') symbol \<and>
               symbol \<notin> set (map_values (entitySymbols this'))"
  proof (intro allI impI)
    fix symbol
    assume "map_get (entitySymbols this) identifier = Some symbol"
    from remove_evicts [OF c this]
    show "\<not> map_has (entityMap this') symbol \<and>
          symbol \<notin> set (map_values (entitySymbols this'))"
      unfolding r by (rule conjI)
  qed
  have others: "\<forall>other. other \<noteq> identifier \<longrightarrow>
               map_get (entitySymbols this') other = map_get (entitySymbols this) other \<and>
               get this' other = get this other"
  proof (intro allI impI)
    fix other
    assume "other \<noteq> identifier"
    from handle_remove_other [OF this] get_remove_other [OF c this]
    show "map_get (entitySymbols this') other = map_get (entitySymbols this) other \<and>
          get this' other = get this other"
      unfolding r by (rule conjI)
  qed
  from ret evict gone no_value others have present:
    "has this identifier \<longrightarrow>
       removed \<and>
       (\<forall>symbol. map_get (entitySymbols this) identifier = Some symbol \<longrightarrow>
          \<not> map_has (entityMap this') symbol \<and>
          symbol \<notin> set (map_values (entitySymbols this'))) \<and>
       \<not> has this' identifier \<and> get this' identifier = None \<and>
       (\<forall>other. other \<noteq> identifier \<longrightarrow>
          map_get (entitySymbols this') other = map_get (entitySymbols this) other \<and>
          get this' other = get this other)"
    by simp
  from present absent show ?thesis by (rule conjI)
qed

theorem remove_correct_witness:
  "has (run (Some [(''a'', 1::nat), (''b'', 2)]) []) ''a'' \<and>
   fst (remove (run (Some [(''a'', 1::nat), (''b'', 2)]) []) ''a'') \<and>
   \<not> has (snd (remove (run (Some [(''a'', 1::nat), (''b'', 2)]) []) ''a'')) ''a'' \<and>
   get (snd (remove (run (Some [(''a'', 1::nat), (''b'', 2)]) []) ''a'')) ''a'' = None \<and>
   get (snd (remove (run (Some [(''a'', 1::nat), (''b'', 2)]) []) ''a'')) ''b''
     = get (run (Some [(''a'', 1::nat), (''b'', 2)]) []) ''b'' \<and>
   \<not> has (run (Some [(''a'', 1::nat), (''b'', 2)]) []) ''c'' \<and>
   remove (run (Some [(''a'', 1::nat), (''b'', 2)]) []) ''c''
     = (False, run (Some [(''a'', 1::nat), (''b'', 2)]) [])"
proof -
  let ?R = "run (Some [(''a'', 1::nat), (''b'', 2)]) []"
  have present: "has ?R ''a''" by code_simp
  have absent: "\<not> has ?R ''c''" by code_simp
  from remove_correct [of _ "Some [(''a'', 1::nat), (''b'', 2)]" "[]" "''a''", OF refl surjective_pairing]
    present
  have a: "fst (remove ?R ''a'') \<and> \<not> has (snd (remove ?R ''a'')) ''a'' \<and>
           get (snd (remove ?R ''a'')) ''a'' = None \<and>
           get (snd (remove ?R ''a'')) ''b'' = get ?R ''b''"
    by simp
  from remove_correct [of _ "Some [(''a'', 1::nat), (''b'', 2)]" "[]" "''c''", OF refl surjective_pairing]
    absent
  have "\<not> fst (remove ?R ''c'') \<and> snd (remove ?R ''c'') = ?R" by simp
  then have b: "remove ?R ''c'' = (False, ?R)" by (simp add: prod_eq_iff)
  from present absent a b show ?thesis by simp
qed

section \<open>Handles of the identifier table are stored\<close>

lemma symbols_stored:
  assumes "consistent this" and "map_get (entitySymbols this) identifier = Some symbol"
  shows "\<exists>entity. map_get (entityMap this) symbol = Some entity"
proof -
  have "(identifier, symbol) \<in> set (entitySymbols this)" using assms(2) by (rule map_get_SomeD)
  then have "symbol \<in> snd ` set (entitySymbols this)" by force
  with assms(1) have "symbol \<in> fst ` set (entityMap this)" unfolding consistent_def by blast
  then have "map_get (entityMap this) symbol \<noteq> None" by (simp add: map_get_None)
  then show ?thesis by blast
qed

lemma forEach_walk_unchanged:
  "(\<And>i e m. callback i e m = m) \<Longrightarrow> forEach_walk callback es em = em"
  by (induction callback es em rule: forEach_walk.induct) simp_all

lemma perform_well_behaved:
  assumes "well_behaved operation" and "consistent this"
  shows "consistent (perform this operation)"
proof (cases operation)
  case (Mutate c)
  with assms(2) show ?thesis by (simp add: consistent_exec)
next
  case (ForEach callback)
  with assms(1) have "forEach_walk callback (entitySymbols this) (entityMap this) = entityMap this"
    by (intro forEach_walk_unchanged) simp
  with assms(2) show ?thesis by (simp add: ForEach forEach_def)
qed

lemma consistent_foldl_perform:
  "list_all well_behaved operations \<Longrightarrow> consistent this \<Longrightarrow>
   consistent (foldl perform this operations)"
  by (induction operations arbitrary: this) (simp_all add: perform_well_behaved)

lemma consistent_run_operations:
  "list_all well_behaved operations \<Longrightarrow> consistent (run_operations entities operations)"
  unfolding run_operations_def by (rule consistent_foldl_perform [OF _ consistent_constructor])

text \<open>
  Claim C9, as the code has it. In every registry reached from the constructor by
  \<^verbatim>\<open>add\<close>, \<^verbatim>\<open>remove\<close>, \<^verbatim>\<open>clear\<close> and by \<^verbatim>\<open>forEach\<close> with callbacks that leave the table
  they are handed unchanged, every handle of the identifier table is a key of the handle
  table, and \<^verbatim>\<open>get\<close> on a present identifier returns the value that the handle table stores
  under that identifier's handle.
\<close>

theorem handles_are_stored:
  assumes "list_all well_behaved operations"
    and "this = run_operations entities operations"
  shows "(\<forall>i symbol. map_get (entitySymbols this) i = Some symbol
            \<longrightarrow> map_has (entityMap this) symbol) \<and>
         (\<forall>i. has this i \<longrightarrow>
            (\<exists>symbol entity.
               map_get (entitySymbols this) i = Some symbol \<and>
               map_get (entityMap this) symbol = Some entity \<and>
               (symbol, entity) \<in> set (entityMap this) \<and>
               get this i = Some entity))"
proof (intro conjI allI impI)
  have c: "consistent this"
    unfolding assms(2) using assms(1) by (rule consistent_run_operations)
  {
    fix i symbol
    assume "map_get (entitySymbols this) i = Some symbol"
    from symbols_stored [OF c this]
    have "map_get (entityMap this) symbol \<noteq> None" by auto
    then show "map_has (entityMap this) symbol"
      by (simp add: map_has_def map_get_None)
  }
  {
    fix i
    assume "has this i"
    then obtain symbol where s: "map_get (entitySymbols this) i = Some symbol"
      by (auto simp: has_iff)
    from symbols_stored [OF c s] obtain entity
      where e: "map_get (entityMap this) symbol = Some entity" by blast
    then have "(symbol, entity) \<in> set (entityMap this)" by (rule map_get_SomeD)
    moreover from s e have "get this i = Some entity" by (simp add: get_def)
    ultimately show "\<exists>symbol entity.
               map_get (entitySymbols this) i = Some symbol \<and>
               map_get (entityMap this) symbol = Some entity \<and>
               (symbol, entity) \<in> set (entityMap this) \<and>
               get this i = Some entity"
      using s e by blast
  }
qed

theorem handles_are_stored_witness:
  "list_all well_behaved [Mutate (Add ''a'' (1::nat)), ForEach look_only, Mutate (Add ''b'' 2)] \<and>
   has (run_operations None [Mutate (Add ''a'' (1::nat)), ForEach look_only, Mutate (Add ''b'' 2)]) ''a'' \<and>
   map_get (entitySymbols
      (run_operations None [Mutate (Add ''a'' (1::nat)), ForEach look_only, Mutate (Add ''b'' 2)])) ''a''
     = Some (Symbol 0 ''a'') \<and>
   map_has (entityMap
      (run_operations None [Mutate (Add ''a'' (1::nat)), ForEach look_only, Mutate (Add ''b'' 2)]))
     (Symbol 0 ''a'') \<and>
   map_get (entityMap
      (run_operations None [Mutate (Add ''a'' (1::nat)), ForEach look_only, Mutate (Add ''b'' 2)]))
     (Symbol 0 ''a'') = Some 1 \<and>
   (Symbol 0 ''a'', 1) \<in> set (entityMap
      (run_operations None [Mutate (Add ''a'' (1::nat)), ForEach look_only, Mutate (Add ''b'' 2)])) \<and>
   get (run_operations None [Mutate (Add ''a'' (1::nat)), ForEach look_only, Mutate (Add ''b'' 2)]) ''a''
     = Some 1"
proof -
  let ?ops = "[Mutate (Add ''a'' (1::nat)), ForEach look_only, Mutate (Add ''b'' 2)]"
  let ?R = "run_operations None ?ops"
  have wb: "list_all well_behaved ?ops" by (simp add: look_only_def)
  have handle: "map_get (entitySymbols ?R) ''a'' = Some (Symbol 0 ''a'')" by code_simp
  have present: "has ?R ''a''" by code_simp
  have val: "get ?R ''a'' = Some 1" by code_simp
  note stored = handles_are_stored [OF wb refl, of None]
  from stored [THEN conjunct1, THEN spec, THEN spec, THEN mp, OF handle]
  have key: "map_has (entityMap ?R) (Symbol 0 ''a'')" .
  from stored [THEN conjunct2, THEN spec, THEN mp, OF present]
  obtain symbol entity where
    s: "map_get (entitySymbols ?R) ''a'' = Some symbol" and
    e: "map_get (entityMap ?R) symbol = Some entity" and
    m: "(symbol, entity) \<in> set (entityMap ?R)" and
    g: "get ?R ''a'' = Some entity"
    by (elim exE conjE)
  from s handle have "symbol = Symbol 0 ''a''" by simp
  moreover from g val have "entity = 1" by simp
  ultimately have "map_get (entityMap ?R) (Symbol 0 ''a'') = Some 1"
    and "(Symbol 0 ''a'', 1) \<in> set (entityMap ?R)"
    using e m by simp_all
  with wb present handle key val show ?thesis by simp
qed

text \<open>
  Claim C9 as it is worded speaks of every sequence of public operations. \<^verbatim>\<open>forEach\<close> is
  one, and its callback may empty the table it is handed: after \<^verbatim>\<open>add("x", 1)\<close> and
  \<^verbatim>\<open>forEach((id, e, m) => m.clear())\<close> the identifier \<open>x\<close> is present, its handle is no key
  of the handle table, and \<^verbatim>\<open>get("x")\<close> is absent.
\<close>

theorem forEach_breaks_handles:
  "has (run_operations None [Mutate (Add ''x'' (1::nat)), ForEach clear_table]) ''x'' \<and>
   map_get (entitySymbols (run_operations None [Mutate (Add ''x'' (1::nat)), ForEach clear_table])) ''x''
     = Some (Symbol 0 ''x'') \<and>
   \<not> map_has (entityMap (run_operations None [Mutate (Add ''x'' (1::nat)), ForEach clear_table]))
       (Symbol 0 ''x'') \<and>
   get (run_operations None [Mutate (Add ''x'' (1::nat)), ForEach clear_table]) ''x'' = None"
  by code_simp

section \<open>The identifier table is no larger than the handle table\<close>

lemma identifiers_le_size:
  assumes "consistent this"
  shows "length (entitySymbols this) \<le> length (entityMap this)"
proof -
  from assms have d1: "distinct (map fst (entityMap this))"
    and d3: "distinct (map snd (entitySymbols this))"
    and sub: "snd ` set (entitySymbols this) \<subseteq> fst ` set (entityMap this)"
    unfolding consistent_def by blast+
  have "length (entitySymbols this) = card (set (map snd (entitySymbols this)))"
    using distinct_card [OF d3] by simp
  also have "\<dots> \<le> card (set (map fst (entityMap this)))"
    using sub by (intro card_mono) simp_all
  also have "\<dots> = length (entityMap this)"
    using distinct_card [OF d1] by simp
  finally show ?thesis .
qed

lemma size_add:
  assumes "consistent this"
  shows "size_Entity (add this identifier entity) = Suc (size_Entity this)"
  using fresh_symbol(1) [OF assms, of "identifier"]
  by (simp add: size_Entity_def map_size_def add_def Symbol_new_def length_map_set)

lemma identifiers_add:
  "length (getAllIdentifiers (add this identifier entity)) =
     (if has this identifier then length (getAllIdentifiers this)
      else Suc (length (getAllIdentifiers this)))"
  by (simp add: getAllIdentifiers_def map_keys_def add_def Symbol_new_def has_def map_has_def
      keys_map_set)

text \<open>
  Claim C10. In every registry reached by constructor, \<^verbatim>\<open>add\<close>, \<^verbatim>\<open>remove\<close> and
  \<^verbatim>\<open>clear\<close>, the identifier table has at most as many entries as the handle table
  (\<^verbatim>\<open>getAllIdentifiers()\<close> is no longer than \<^verbatim>\<open>size\<close>); an \<^verbatim>\<open>add\<close> with an identifier
  that is already present raises \<^verbatim>\<open>size\<close> by one and leaves the number of identifiers as it
  is, so the inequality is strict afterwards and the gap has grown by one.
\<close>

theorem identifiers_at_most_size:
  assumes "this = run entities calls"
  shows "map_size (entitySymbols this) \<le> map_size (entityMap this) \<and>
         length (getAllIdentifiers this) \<le> size_Entity this \<and>
         (has this identifier \<longrightarrow>
            size_Entity (add this identifier entity) = Suc (size_Entity this) \<and>
            length (getAllIdentifiers (add this identifier entity)) = length (getAllIdentifiers this) \<and>
            length (getAllIdentifiers (add this identifier entity))
              < size_Entity (add this identifier entity))"
proof -
  have c: "consistent this" unfolding assms by (rule consistent_run)
  have le: "length (getAllIdentifiers this) \<le> size_Entity this"
    using identifiers_le_size [OF c]
    by (simp add: getAllIdentifiers_def map_keys_def size_Entity_def map_size_def)
  then have le': "map_size (entitySymbols this) \<le> map_size (entityMap this)"
    by (simp add: getAllIdentifiers_def map_keys_def size_Entity_def map_size_def)
  from le le' show ?thesis
    by (simp add: size_add [OF c] identifiers_add)
qed

theorem identifiers_at_most_size_witness:
  "map_size (entitySymbols (run (Some [(''a'', 1::nat)]) []))
     \<le> map_size (entityMap (run (Some [(''a'', 1::nat)]) [])) \<and>
   has (run (Some [(''a'', 1::nat)]) []) ''a'' \<and>
   size_Entity (add (run (Some [(''a'', 1::nat)]) []) ''a'' 2)
     = Suc (size_Entity (run (Some [(''a'', 1::nat)]) [])) \<and>
   length (getAllIdentifiers (add (run (Some [(''a'', 1::nat)]) []) ''a'' 2))
     < size_Entity (add (run (Some [(''a'', 1::nat)]) []) ''a'' 2)"
proof -
  let ?R = "run (Some [(''a'', 1::nat)]) []"
  have present: "has ?R ''a''" by code_simp
  from identifiers_at_most_size [OF refl, of "Some [(''a'', 1::nat)]" "[]" "''a''" 2] present
  show ?thesis by simp
qed

section \<open>Clearing\<close>

lemma isEmpty_clear_noop:
  assumes "consistent this" and "isEmpty this"
  shows "clear this = this"
proof -
  from assms(2) have em: "entityMap this = []" by (simp add: isEmpty_def map_size_def)
  with assms(1) have "snd ` set (entitySymbols this) \<subseteq> {}" unfolding consistent_def by simp
  then have es: "entitySymbols this = []" by simp
  from em es show ?thesis by (simp add: clear_def)
qed

text \<open>
  Claim C8. After \<^verbatim>\<open>clear()\<close> the size is 0 and \<^verbatim>\<open>isEmpty\<close> is true, whatever the state
  was; in every state \<^verbatim>\<open>isEmpty\<close> is true exactly when the size is 0; and \<^verbatim>\<open>clear()\<close> on a
  reached registry that is empty changes nothing.
\<close>

theorem clear_empties:
  "size_Entity (clear this) = 0 \<and> isEmpty (clear this) \<and>
   (isEmpty this \<longleftrightarrow> size_Entity this = 0) \<and>
   (isEmpty (run entities calls) \<longrightarrow> clear (run entities calls) = run entities calls)"
  using isEmpty_clear_noop [OF consistent_run, of entities calls]
  by (simp add: size_Entity_def isEmpty_def map_size_def clear_def)

theorem clear_empties_witness:
  "isEmpty (run None [Add ''a'' (1::nat), Remove ''a'']) \<and>
   clear (run None [Add ''a'' (1::nat), Remove ''a'']) = run None [Add ''a'' (1::nat), Remove ''a''] \<and>
   size_Entity (clear (run None [Add ''a'' (1::nat)])) = 0 \<and>
   isEmpty (clear (run None [Add ''a'' (1::nat)]))"
proof -
  have e: "isEmpty (run None [Add ''a'' (1::nat), Remove ''a''])" by code_simp
  from clear_empties [of "run None [Add ''a'' (1::nat)]" "None" "[Add ''a'' (1::nat), Remove ''a'']"] e
  show ?thesis by simp
qed

section \<open>Fresh handles\<close>

lemma symbolCount_exec: "symbolCount this \<le> symbolCount (exec this c)"
  by (cases c) (auto simp: add_def Symbol_new_def clear_def remove_def split: option.splits)

lemma symbolCount_foldl_exec: "symbolCount this \<le> symbolCount (foldl exec this calls)"
proof (induction calls arbitrary: this)
  case Nil
  show ?case by simp
next
  case (Cons c calls)
  have "symbolCount this \<le> symbolCount (exec this c)" by (rule symbolCount_exec)
  also have "\<dots> \<le> symbolCount (foldl exec (exec this c) calls)" by (rule Cons.IH)
  finally show ?case by simp
qed

lemma handle_add:
  "map_get (entitySymbols (add this identifier entity)) identifier
     = Some (Symbol (symbolCount this) identifier)"
  by (simp add: add_def Symbol_new_def map_get_set)

lemma symbolCount_add: "symbolCount (add this identifier entity) = Suc (symbolCount this)"
  by (simp add: add_def Symbol_new_def)

text \<open>
  Claim C7. Every \<^verbatim>\<open>add\<close> mints a fresh handle: the handle stored by one \<^verbatim>\<open>add\<close> differs
  from the handle stored by any later \<^verbatim>\<open>add\<close>, also for the same identifier and whatever
  calls lie between; in particular after two \<^verbatim>\<open>add\<close> calls for one identifier the handle
  stored for it is not the one the first call stored.
\<close>

theorem add_mints_fresh_handle:
  "(\<exists>h1 h2.
      map_get (entitySymbols (add this identifier entity)) identifier = Some h1 \<and>
      map_get (entitySymbols
                 (add (foldl exec (add this identifier entity) calls) identifier' entity'))
        identifier' = Some h2 \<and>
      h1 \<noteq> h2) \<and>
   map_get (entitySymbols (add (add this identifier entity) identifier entity')) identifier
     \<noteq> map_get (entitySymbols (add this identifier entity)) identifier"
proof -
  have "Suc (symbolCount this) \<le> symbolCount (foldl exec (add this identifier entity) calls)"
    using symbolCount_foldl_exec [of "add this identifier entity" calls]
    by (simp add: symbolCount_add)
  then have "symbolCount this \<noteq> symbolCount (foldl exec (add this identifier entity) calls)"
    by simp
  then show ?thesis by (simp add: handle_add symbolCount_add)
qed

section \<open>The walk of find\<close>

lemma find_walk_result:
  assumes "\<And>v i s. fst (callback v i em s) = fn v i em"
  shows "fst (find_walk callback em es (result, s)) =
     (case filter (\<lambda>(v, i). fn v i em) (map (\<lambda>(i, symbol). (map_get em symbol, i)) es) of
        [] \<Rightarrow> result
      | m # ms \<Rightarrow> fst (last (m # ms)))"
proof (induction es arbitrary: result s)
  case Nil
  show ?case by simp
next
  case (Cons p es)
  obtain i symbol where p: "p = (i, symbol)" by (cases p)
  obtain b s' where cb: "callback (map_get em symbol) i em s = (b, s')"
    by (cases "callback (map_get em symbol) i em s")
  with assms [of "map_get em symbol" i s] have b: "b = fn (map_get em symbol) i em" by simp
  show ?case
    unfolding p
    by (simp add: cb Cons.IH b split: list.splits)
qed

lemma find_walk_log:
  "snd (find_walk (logging_callback fn) em es (result, log)) = log @ map fst es"
proof (induction es arbitrary: result log)
  case Nil
  show ?case by simp
next
  case (Cons p es)
  obtain i symbol where p: "p = (i, symbol)" by (cases p)
  have step: "logging_callback fn (map_get em symbol) i em log
      = (fn (map_get em symbol) i em, log @ [i])"
    by (simp add: logging_callback_def)
  show ?case unfolding p by (simp add: step Cons.IH)
qed

lemma find_walk_pure_state:
  "snd (find_walk (pure_callback fn) em es (result, s)) = s"
proof (induction es arbitrary: result)
  case Nil
  show ?case by simp
next
  case (Cons p es)
  obtain i symbol where p: "p = (i, symbol)" by (cases p)
  have step: "pure_callback fn (map_get em symbol) i em s = (fn (map_get em symbol) i em, s)"
    by (simp add: pure_callback_def)
  show ?case unfolding p by (simp add: step Cons.IH)
qed

lemma find_example:
  "find_Entity (pure_callback (\<lambda>v i m. case v of Some x \<Rightarrow> 0 < x | None \<Rightarrow> False))
     (constructor (Some [(''a'', 10::int), (''b'', 20)])) () = (Some 20, ())"
  by code_simp

text \<open>
  \<^verbatim>\<open>find\<close> returns the last value, in the order of the identifier table, for which the
  predicate is true, or absent when no entry matches, and the callback is invoked on every
  entry, in order, also after a match: a callback that records the identifiers it sees ends
  with the list of all identifiers. For the registry built from \<^verbatim>\<open>{a: 10, b: 20}\<close>,
  \<^verbatim>\<open>find(v => v > 0)\<close> is 20.
\<close>

lemma find_returns_last_walk_match:
  "find_Entity (pure_callback fn) this s = (last_walk_match fn this, s) \<and>
   find_Entity (logging_callback fn) this [] = (last_walk_match fn this, getAllIdentifiers this) \<and>
   find_Entity (pure_callback (\<lambda>v i m. case v of Some x \<Rightarrow> 0 < x | None \<Rightarrow> False))
     (constructor (Some [(''a'', 10::int), (''b'', 20)])) () = (Some 20, ())"
proof (intro conjI)
  have "fst (find_Entity (pure_callback fn) this s) = last_walk_match fn this"
    unfolding find_Entity_def last_walk_match_def walk_entries_def
    by (rule find_walk_result) (simp add: pure_callback_def)
  moreover have "snd (find_Entity (pure_callback fn) this s) = s"
    unfolding find_Entity_def by (rule find_walk_pure_state)
  ultimately show "find_Entity (pure_callback fn) this s = (last_walk_match fn this, s)"
    by (simp add: prod_eq_iff)
next
  have "fst (find_Entity (logging_callback fn) this []) = last_walk_match fn this"
    unfolding find_Entity_def last_walk_match_def walk_entries_def
    by (rule find_walk_result) (simp add: logging_callback_def)
  moreover have "snd (find_Entity (logging_callback fn) this []) = getAllIdentifiers this"
    unfolding find_Entity_def getAllIdentifiers_def map_keys_def
    by (simp add: find_walk_log)
  ultimately show "find_Entity (logging_callback fn) this []
      = (last_walk_match fn this, getAllIdentifiers this)"
    by (simp add: prod_eq_iff)
next
  show "find_Entity (pure_callback (\<lambda>v i m. case v of Some x \<Rightarrow> 0 < x | None \<Rightarrow> False))
     (constructor (Some [(''a'', 10::int), (''b'', 20)])) () = (Some 20, ())"
    by (rule find_example)
qed

text \<open>
  As long as no \<^verbatim>\<open>add\<close> names a present identifier, the two tables list the same handles
  in the same order, the walk of the identifier table meets the entries in the canonical
  enumeration order, and \<^verbatim>\<open>find\<close> returns the last match of that order.
\<close>

lemma map_get_distinct: "distinct (map fst m) \<Longrightarrow> (k, v) \<in> set m \<Longrightarrow> map_get m k = Some v"
  by (induction m k rule: map_get.induct) (auto simp: rev_image_eqI)

lemma filter_handle_unique:
  "distinct (map snd es) \<Longrightarrow> (i, s) \<in> set es \<Longrightarrow> filter (\<lambda>(i', s'). s' = s) es = [(i, s)]"
proof (induction es)
  case Nil
  then show ?case by simp
next
  case (Cons p es)
  obtain i' s' where p: "p = (i', s')" by (cases p)
  show ?case
  proof (cases "(i, s) = (i', s')")
    case True
    with Cons.prems(1) have "s \<notin> snd ` set es" by (simp add: p)
    then have "filter (\<lambda>(i', s'). s' = s) es = []"
      by (auto simp: filter_empty_conv rev_image_eqI)
    with True show ?thesis by (simp add: p)
  next
    case False
    with Cons.prems(2) have mem: "(i, s) \<in> set es" by (auto simp: p)
    then have "s \<in> snd ` set es" by (rule rev_image_eqI) simp
    with Cons.prems(1) have "s' \<noteq> s" by (auto simp: p)
    with Cons.IH [OF _ mem] Cons.prems(1) show ?thesis by (simp add: p)
  qed
qed

lemma enumeration_part:
  assumes "distinct (map snd es)" and "distinct (map fst em)"
  shows "set es' \<subseteq> set es \<Longrightarrow> set em' \<subseteq> set em \<Longrightarrow> map snd es' = map fst em' \<Longrightarrow>
     concat (map (\<lambda>(symbol, entity).
                    map (\<lambda>(i, s). (Some entity, i)) (filter (\<lambda>(i, s). s = symbol) es)) em')
       = map (\<lambda>(i, symbol). (map_get em symbol, i)) es'"
proof (induction es' arbitrary: em')
  case Nil
  then show ?case by simp
next
  case (Cons p es')
  obtain i s where p: "p = (i, s)" by (cases p)
  from Cons.prems(3) obtain e em'' where em': "em' = (s, e) # em''" and rest: "map snd es' = map fst em''"
    by (cases em') (auto simp: p)
  from Cons.prems(1) have mem: "(i, s) \<in> set es" and sub: "set es' \<subseteq> set es" by (simp_all add: p)
  from Cons.prems(2) have mem': "(s, e) \<in> set em" and sub': "set em'' \<subseteq> set em"
    by (simp_all add: em')
  have f: "filter (\<lambda>(i', s'). s' = s) es = [(i, s)]"
    using assms(1) mem by (rule filter_handle_unique)
  have g: "map_get em s = Some e" using assms(2) mem' by (rule map_get_distinct)
  from Cons.IH [OF sub sub' rest] show ?case by (simp add: p em' f g)
qed

lemma enumeration_aligned:
  assumes "consistent this" and "aligned this"
  shows "enumeration this = walk_entries this"
proof -
  from assms(1) have d1: "distinct (map fst (entityMap this))"
    and d3: "distinct (map snd (entitySymbols this))"
    unfolding consistent_def by blast+
  from assms(2) have a: "map snd (entitySymbols this) = map fst (entityMap this)"
    by (simp add: aligned_def map_values_def map_keys_def)
  show ?thesis
    unfolding enumeration_def walk_entries_def
    by (rule enumeration_part [OF d3 d1 subset_refl subset_refl a])
qed

lemma map_set_absent: "k \<notin> fst ` set m \<Longrightarrow> map_set k v m = m @ [(k, v)]"
  by (induction k v m rule: map_set.induct) auto

lemma aligned_add:
  assumes "consistent this" and "aligned this" and "\<not> has this i"
  shows "aligned (add this i v)"
proof -
  from assms(3) have "i \<notin> fst ` set (entitySymbols this)" by (simp add: has_def map_has_def)
  then have es: "map_set i (Symbol (symbolCount this) i) (entitySymbols this)
      = entitySymbols this @ [(i, Symbol (symbolCount this) i)]"
    by (rule map_set_absent)
  have em: "map_set (Symbol (symbolCount this) i) v (entityMap this)
      = entityMap this @ [(Symbol (symbolCount this) i, v)]"
    using fresh_symbol(1) [OF assms(1)] by (rule map_set_absent)
  from assms(2) show ?thesis
    by (simp add: aligned_def map_values_def map_keys_def add_def Symbol_new_def es em)
qed

lemma delete_aligned:
  "map snd es = map fst em \<Longrightarrow> distinct (map fst es) \<Longrightarrow> distinct (map snd es) \<Longrightarrow>
   map_get es i = Some s \<Longrightarrow> map snd (map_delete i es) = map fst (map_delete s em)"
proof (induction es arbitrary: em)
  case Nil
  then show ?case by simp
next
  case (Cons p es)
  obtain i' s' where p: "p = (i', s')" by (cases p)
  from Cons.prems(1) obtain e em' where em: "em = (s', e) # em'" and rest: "map snd es = map fst em'"
    by (cases em) (auto simp: p)
  from Cons.prems(2) have dk: "i' \<notin> fst ` set es" "distinct (map fst es)" by (simp_all add: p)
  from Cons.prems(3) have dv: "s' \<notin> snd ` set es" "distinct (map snd es)" by (simp_all add: p)
  show ?case
  proof (cases "i' = i")
    case True
    with Cons.prems(4) have s: "s = s'" by (simp add: p)
    from dk(1) True have "map_delete i es = es"
      by (auto simp: map_delete_filter filter_id_conv image_iff)
    moreover from dv(1) rest have "s' \<notin> fst ` set em'" by (metis list.set_map)
    then have "map_delete s' em' = em'"
      by (auto simp: map_delete_filter filter_id_conv image_iff)
    ultimately show ?thesis using True rest by (simp add: p em s)
  next
    case False
    with Cons.prems(4) have g: "map_get es i = Some s" by (simp add: p)
    then have "(i, s) \<in> set es" by (rule map_get_SomeD)
    then have "s \<in> snd ` set es" by (rule rev_image_eqI) simp
    with dv(1) have "s' \<noteq> s" by auto
    with False Cons.IH [OF rest dk(2) dv(2) g] show ?thesis by (simp add: p em)
  qed
qed

lemma aligned_remove:
  assumes "consistent this" and "aligned this"
  shows "aligned (snd (remove this i))"
proof (cases "map_get (entitySymbols this) i")
  case None
  with assms(2) show ?thesis by (simp add: remove_None)
next
  case (Some s)
  from assms(1) have d2: "distinct (map fst (entitySymbols this))"
    and d3: "distinct (map snd (entitySymbols this))"
    unfolding consistent_def by blast+
  from assms(2) have a: "map snd (entitySymbols this) = map fst (entityMap this)"
    by (simp add: aligned_def map_values_def map_keys_def)
  from delete_aligned [OF a d2 d3 Some] show ?thesis
    by (simp add: remove_Some [OF Some] aligned_def map_values_def map_keys_def)
qed

lemma aligned_clear: "aligned (clear this)"
  by (simp add: aligned_def clear_def map_values_def map_keys_def)

lemma aligned_foldl_exec:
  "consistent this \<Longrightarrow> aligned this \<Longrightarrow> fresh_adds this calls \<Longrightarrow>
   aligned (foldl exec this calls)"
proof (induction calls arbitrary: this)
  case Nil
  then show ?case by simp
next
  case (Cons c calls)
  from Cons.prems have "aligned (exec this c)"
    by (cases c) (simp_all add: aligned_add aligned_remove aligned_clear)
  moreover from Cons.prems(1) have "consistent (exec this c)" by (rule consistent_exec)
  moreover from Cons.prems(3) have "fresh_adds (exec this c) calls" by simp
  ultimately show ?case using Cons.IH by simp
qed

lemma aligned_empty: "aligned empty_Entity"
  by (simp add: aligned_def empty_Entity_def map_values_def map_keys_def)

lemma find_last_match_without_readd:
  assumes "fresh_adds empty_Entity calls"
  shows "fst (find_Entity (pure_callback fn) (run None calls) s) = last_match fn (run None calls)"
proof -
  have c: "consistent (run None calls)" by (rule consistent_run)
  have "aligned (run None calls)"
    unfolding run_def constructor_def
    using aligned_foldl_exec [OF consistent_empty aligned_empty assms] by simp
  from enumeration_aligned [OF c this]
  have "last_match fn (run None calls) = last_walk_match fn (run None calls)"
    by (simp add: last_match_def last_walk_match_def)
  then show ?thesis by (simp add: find_returns_last_walk_match)
qed

text \<open>
  Claim C5 says that for every registry state \<^verbatim>\<open>find\<close> returns the last value in
  enumeration order for which the predicate is true. After
  \<^verbatim>\<open>add("a", 1); add("b", 2); add("a", 3)\<close> the identifier table lists \<open>a\<close> before \<open>b\<close>,
  while the handle table holds the handle of \<open>a\<close> last: \<^verbatim>\<open>find(v => v > 0)\<close> is 2, and the
  last match in enumeration order is 3.
\<close>

theorem find_misses_last_match:
  "fst (find_Entity (pure_callback positive)
          (run None [Add ''a'' 1, Add ''b'' 2, Add ''a'' 3]) ()) = Some 2 \<and>
   last_match positive (run None [Add ''a'' 1, Add ''b'' 2, Add ''a'' 3]) = Some 3"
  by code_simp

section \<open>What default iteration yields\<close>

lemma iterate_zip:
  "iterate it =
     map (\<lambda>(entity, symbol). (Some entity, Some symbol, Some symbol, iter_view it))
       (zip (iter_entities it) (iter_symbols it))"
proof (induction it rule: iterate.induct)
  case (1 it)
  show ?case
  proof (cases "iter_symbols it")
    case Nil
    then show ?thesis
      by (subst iterate.simps) (simp add: iterator_next_def split: prod.splits)
  next
    case symbols: (Cons s ss)
    show ?thesis
    proof (cases "iter_entities it")
      case Nil
      then show ?thesis
        by (subst iterate.simps) (simp add: iterator_next_def symbols)
    next
      case entities: (Cons e es)
      have n: "iterator_next it =
          ((False, (Some e, Some s, Some s, iter_view it)),
           it\<lparr> iter_symbols := ss, iter_entities := es \<rparr>)"
        by (simp add: iterator_next_def symbols entities)
      from "1.IH" [OF n [symmetric] refl refl]
      have "iterate (it\<lparr> iter_symbols := ss, iter_entities := es \<rparr>) =
          map (\<lambda>(entity, symbol). (Some entity, Some symbol, Some symbol, iter_view it)) (zip es ss)"
        by simp
      then show ?thesis
        by (subst iterate.simps) (simp add: n symbols entities)
    qed
  qed
qed

lemma iteration_length:
  "length (iterate (iterator this)) = min (size_Entity this) (length (getAllIdentifiers this))"
  by (simp add: iterate_zip iterator_def map_values_def size_Entity_def map_size_def
      getAllIdentifiers_def map_keys_def)

lemma iteration_handle_twice:
  "(entity, handle, handle', table) \<in> set (iterate (iterator this)) \<Longrightarrow> handle' = handle"
  by (auto simp: iterate_zip)

section \<open>Re-adding a present identifier\<close>

text \<open>
  \<^verbatim>\<open>add\<close> with an identifier that is present stores the new handle in the identifier table
  but leaves the old handle and its value in the handle table. Every \<^verbatim>\<open>add\<close> therefore
  raises \<^verbatim>\<open>size\<close> by one.
\<close>

lemma size_foldl_adds:
  "consistent this \<Longrightarrow>
   size_Entity (foldl exec this (map (\<lambda>(i, v). Add i v) xs)) = size_Entity this + length xs"
proof (induction xs arbitrary: this)
  case Nil
  show ?case by simp
next
  case (Cons x xs)
  obtain i v where x: "x = (i, v)" by (cases x)
  from Cons.prems have "consistent (add this i v)" by (rule consistent_add)
  from Cons.IH [OF this] show ?case
    by (simp add: x size_add [OF Cons.prems])
qed

lemma size_after_adds: "size_Entity (run None (map (\<lambda>(i, v). Add i v) xs)) = length xs"
  using size_foldl_adds [OF consistent_empty, of xs]
  by (simp add: run_def constructor_def size_Entity_def map_size_def empty_Entity_def)

text \<open>
  Claim C1 says that after a sequence of \<^verbatim>\<open>add\<close> calls on an empty registry the size is
  the number of distinct identifiers, that both tables have equally many entries, and that
  \<^verbatim>\<open>add("x", 1); add("x", 2)\<close> leaves the size at 1. In the code that sequence leaves the
  size at 2, with one identifier and two handles.
\<close>

theorem size_counts_orphans:
  "size_Entity (run None [Add ''x'' (1::int), Add ''x'' 2]) = 2 \<and>
   getAllIdentifiers (run None [Add ''x'' (1::int), Add ''x'' 2]) = [''x''] \<and>
   map_size (entitySymbols (run None [Add ''x'' (1::int), Add ''x'' 2])) = 1 \<and>
   map_size (entityMap (run None [Add ''x'' (1::int), Add ''x'' 2])) = 2"
  by code_simp

text \<open>
  Claim C2 says that the i-th identifier, the i-th handle, the i-th result of \<^verbatim>\<open>map\<close> and
  the i-th item of default iteration belong to one entry. After
  \<^verbatim>\<open>add("x", 1); add("x", 2)\<close> the only identifier is \<open>x\<close>, whose handle is the second
  symbol and whose value is 2, as \<^verbatim>\<open>map\<close> reports; the first handle of
  \<^verbatim>\<open>getAllSymbols()\<close> is the first symbol, which no identifier has, and the first item of
  default iteration pairs the value 1 with the second symbol.
\<close>

theorem enumerations_disagree:
  "getAllIdentifiers (run None [Add ''x'' (1::int), Add ''x'' 2]) = [''x''] \<and>
   getAllSymbols (run None [Add ''x'' (1::int), Add ''x'' 2]) = [Symbol 0 ''x'', Symbol 1 ''x''] \<and>
   map_get (entitySymbols (run None [Add ''x'' (1::int), Add ''x'' 2])) ''x'' = Some (Symbol 1 ''x'') \<and>
   map_Entity (\<lambda>v i m. (v, i)) (run None [Add ''x'' (1::int), Add ''x'' 2]) = [(Some 2, ''x'')] \<and>
   map (\<lambda>(entity, handle, handle', table). (entity, handle, handle'))
     (iterate (iterator (run None [Add ''x'' (1::int), Add ''x'' 2])))
     = [(Some 1, Some (Symbol 1 ''x''), Some (Symbol 1 ''x''))]"
  by code_simp

text \<open>
  Claim C6 says that default iteration yields as many items as the size at its start, each
  with one handle in its second and third position. After \<^verbatim>\<open>add("x", 1); add("x", 2)\<close> the
  size is 2 and iteration yields one item.
\<close>

theorem iteration_shorter_than_size:
  "length (iterate (iterator (run None [Add ''x'' (1::int), Add ''x'' 2]))) = 1 \<and>
   size_Entity (run None [Add ''x'' (1::int), Add ''x'' 2]) = 2"
  by code_simp

end
